theory Spec2Isabelle
  imports Main "HOL-Library.Multiset"
begin

section \<open>The task display: marshalling received messages onto the update loop\<close>

text \<open>
  Source: \<^verbatim>\<open>visualization/motion_planning_tasks/task_display.cpp\<close>.

  The three ROS messages are declared outside these sources. Each is represented by the
  field the callbacks read (\<^verbatim>\<open>msg->id\<close>, \<^verbatim>\<open>msg->task_id\<close>) and a body
  standing for the rest of its content. The field \<^verbatim>\<open>id\<close> is called \<open>msg_id\<close> here.
\<close>

record TaskDescription =
  msg_id :: string
  description_body :: string

record TaskStatistics =
  stat_id :: string
  statistics_body :: string

record Solution =
  task_id :: string
  solution_body :: string

text \<open>\<^verbatim>\<open>ros::MessageEvent\<close>: the publisher's name and the message.\<close>

record 'm MessageEvent =
  getPublisherName :: string
  getMessage :: 'm

text \<open>
  \<^verbatim>\<open>TaskListModel\<close> and \<^verbatim>\<open>TaskSolutionVisualization\<close> are declared outside
  these sources. The display only calls methods on them, so each is represented by what
  the display does to it: the task list model by the sequence of \<^verbatim>\<open>process...Message\<close>
  calls made on it, the visualization by the solutions handed to \<^verbatim>\<open>showTrajectory\<close>
  and the number of \<^verbatim>\<open>update\<close> calls.
\<close>

datatype model_call =
    ProcessTaskDescriptionMessage string TaskDescription
  | ProcessTaskStatisticsMessage string TaskStatistics
  | ProcessSolutionMessage string Solution

type_synonym TaskListModel = "model_call list"

definition processTaskDescriptionMessage ::
  "string \<Rightarrow> TaskDescription \<Rightarrow> TaskListModel \<Rightarrow> TaskListModel" where
  "processTaskDescriptionMessage ident msg m = m @ [ProcessTaskDescriptionMessage ident msg]"

definition processTaskStatisticsMessage ::
  "string \<Rightarrow> TaskStatistics \<Rightarrow> TaskListModel \<Rightarrow> TaskListModel" where
  "processTaskStatisticsMessage ident msg m = m @ [ProcessTaskStatisticsMessage ident msg]"

definition processSolutionMessage ::
  "string \<Rightarrow> Solution \<Rightarrow> TaskListModel \<Rightarrow> TaskListModel" where
  "processSolutionMessage ident msg m = m @ [ProcessSolutionMessage ident msg]"

record TaskSolutionVisualization =
  shown :: "Solution list"
  updates :: nat

definition showTrajectory ::
  "Solution \<Rightarrow> TaskSolutionVisualization \<Rightarrow> TaskSolutionVisualization" where
  "showTrajectory msg v = v\<lparr>shown := shown v @ [msg]\<rparr>"

definition visual_update :: "TaskSolutionVisualization \<Rightarrow> TaskSolutionVisualization" where
  "visual_update v = v\<lparr>updates := Suc (updates v)\<rparr>"

text \<open>
  A job is one of the three closures the callbacks build. Each captures \<^verbatim>\<open>this\<close>,
  the identifier and the message; \<^verbatim>\<open>this\<close> is a pointer, so the members of the
  display are read when the job runs, not when it is made.
\<close>

datatype job =
    DescriptionJob string TaskDescription
  | StatisticsJob string TaskStatistics
  | SolutionJob string Solution

text \<open>
  The members of \<^verbatim>\<open>TaskDisplay\<close> that the callbacks and \<^verbatim>\<open>update\<close> touch.
  \<^verbatim>\<open>task_list_model_\<close> is a pointer that may be null (\<open>None\<close>);
  \<^verbatim>\<open>mainloop_jobs_\<close> holds the jobs not yet executed, oldest first.
\<close>

record TaskDisplay =
  task_list_model :: "TaskListModel option"
  trajectory_visual :: TaskSolutionVisualization
  mainloop_jobs :: "job list"

text \<open>
  Modelled from the spec: the job queue behind \<^verbatim>\<open>mainloop_jobs_\<close> (its class is
  declared outside these sources) is the external queue onto which asynchronous input is
  marshalled. \<^verbatim>\<open>addJob\<close> appends a job.
\<close>

definition addJob :: "job \<Rightarrow> TaskDisplay \<Rightarrow> TaskDisplay" where
  "addJob j d = d\<lparr>mainloop_jobs := mainloop_jobs d @ [j]\<rparr>"

text \<open>The three subscriber callbacks (lines 146 to 173).\<close>

definition taskDescriptionCB :: "TaskDescription MessageEvent \<Rightarrow> TaskDisplay \<Rightarrow> TaskDisplay" where
  "taskDescriptionCB event d =
     (let msg = getMessage event;
          ident = getPublisherName event @ ''/'' @ msg_id msg
      in addJob (DescriptionJob ident msg) d)"

definition taskStatisticsCB :: "TaskStatistics MessageEvent \<Rightarrow> TaskDisplay \<Rightarrow> TaskDisplay" where
  "taskStatisticsCB event d =
     (let msg = getMessage event;
          ident = getPublisherName event @ ''/'' @ stat_id msg
      in addJob (StatisticsJob ident msg) d)"

definition taskSolutionCB :: "Solution MessageEvent \<Rightarrow> TaskDisplay \<Rightarrow> TaskDisplay" where
  "taskSolutionCB event d =
     (let msg = getMessage event;
          ident = getPublisherName event @ ''/'' @ task_id msg
      in addJob (SolutionJob ident msg) d)"

text \<open>
  Running a job. The description and statistics closures call through
  \<^verbatim>\<open>task_list_model_\<close> without a test, so a null pointer there is a fault; the
  solution closure tests the pointer and then shows the trajectory in either case.
\<close>

datatype fault = NullPointerDereference

fun runJob :: "job \<Rightarrow> TaskDisplay \<Rightarrow> fault + TaskDisplay" where
  "runJob (DescriptionJob ident msg) d =
     (case task_list_model d of
        None \<Rightarrow> Inl NullPointerDereference
      | Some m \<Rightarrow> Inr (d\<lparr>task_list_model := Some (processTaskDescriptionMessage ident msg m)\<rparr>))"
| "runJob (StatisticsJob ident msg) d =
     (case task_list_model d of
        None \<Rightarrow> Inl NullPointerDereference
      | Some m \<Rightarrow> Inr (d\<lparr>task_list_model := Some (processTaskStatisticsMessage ident msg m)\<rparr>))"
| "runJob (SolutionJob ident msg) d =
     (let d' = (case task_list_model d of
                  None \<Rightarrow> d
                | Some m \<Rightarrow> d\<lparr>task_list_model := Some (processSolutionMessage ident msg m)\<rparr>)
      in Inr (d'\<lparr>trajectory_visual := showTrajectory msg (trajectory_visual d')\<rparr>))"

text \<open>
  Modelled from the spec: \<^verbatim>\<open>executeJobs\<close> of the job queue (declared outside these
  sources) runs the queued jobs in the order they were added; \<^verbatim>\<open>update\<close> below
  leaves the queue empty. A fault in a job ends the run.
\<close>

fun executeJobs :: "job list \<Rightarrow> TaskDisplay \<Rightarrow> fault + TaskDisplay" where
  "executeJobs [] d = Inr d"
| "executeJobs (j # js) d =
     (case runJob j d of Inl e \<Rightarrow> Inl e | Inr d' \<Rightarrow> executeJobs js d')"

text \<open>
  \<^verbatim>\<open>TaskDisplay::update\<close> (lines 125 to 130). The base class's update touches none of
  the three members; the two time steps are only passed on and are left out.
\<close>

definition update :: "TaskDisplay \<Rightarrow> fault + TaskDisplay" where
  "update d =
     (case executeJobs (mainloop_jobs d) (d\<lparr>mainloop_jobs := []\<rparr>) of
        Inl e \<Rightarrow> Inl e
      | Inr d' \<Rightarrow> Inr (d'\<lparr>trajectory_visual := visual_update (trajectory_visual d')\<rparr>))"

text \<open>
  What the subscriptions of \<^verbatim>\<open>updateTaskListModel\<close> (lines 196, 199, 213) do with a
  received message: each topic is bound to its callback.
\<close>

datatype received =
    OnDescription "TaskDescription MessageEvent"
  | OnStatistics "TaskStatistics MessageEvent"
  | OnSolution "Solution MessageEvent"

fun deliver :: "received \<Rightarrow> TaskDisplay \<Rightarrow> TaskDisplay" where
  "deliver (OnDescription event) d = taskDescriptionCB event d"
| "deliver (OnStatistics event) d = taskStatisticsCB event d"
| "deliver (OnSolution event) d = taskSolutionCB event d"

text \<open>The job a received message turns into, and what that job later does.\<close>

fun job_of :: "received \<Rightarrow> job" where
  "job_of (OnDescription event) =
     DescriptionJob (getPublisherName event @ ''/'' @ msg_id (getMessage event)) (getMessage event)"
| "job_of (OnStatistics event) =
     StatisticsJob (getPublisherName event @ ''/'' @ stat_id (getMessage event)) (getMessage event)"
| "job_of (OnSolution event) =
     SolutionJob (getPublisherName event @ ''/'' @ task_id (getMessage event)) (getMessage event)"

fun call_of :: "job \<Rightarrow> model_call" where
  "call_of (DescriptionJob ident msg) = ProcessTaskDescriptionMessage ident msg"
| "call_of (StatisticsJob ident msg) = ProcessTaskStatisticsMessage ident msg"
| "call_of (SolutionJob ident msg) = ProcessSolutionMessage ident msg"

fun trajectories_of :: "job list \<Rightarrow> Solution list" where
  "trajectories_of [] = []"
| "trajectories_of (SolutionJob ident msg # js) = msg # trajectories_of js"
| "trajectories_of (j # js) = trajectories_of js"


section \<open>Stage implementation: pull and push interfaces\<close>

text \<open>
  Source: \<^verbatim>\<open>core/include/moveit/task_constructor/stage_p.h\<close>, class
  \<^verbatim>\<open>StagePrivate\<close>.

  \<^verbatim>\<open>InterfacePtr\<close> is a shared pointer and \<^verbatim>\<open>InterfaceWeakPtr\<close> a weak pointer to
  an \<^verbatim>\<open>Interface\<close>. The store maps the address of every live interface to its block:
  the number of shared pointers that own it and the object. An address is given out once
  and never again, so it identifies the block a weak pointer refers to. A pointer is an
  address or null (\<open>None\<close>).
\<close>

type_synonym addr = nat

record 'a shared_block =
  use_count :: nat
  object :: 'a

type_synonym 'a store = "addr \<rightharpoonup> 'a shared_block"

type_synonym InterfacePtr = "addr option"

type_synonym InterfaceWeakPtr = "addr option"

datatype Direction = FORWARD | BACKWARD

text \<open>
  \<^verbatim>\<open>std::weak_ptr::lock\<close>: the shared pointer to the object while it is alive, the
  empty pointer once it has expired. The returned pointer lives only in the caller's
  expression, so its own share of the count is not recorded.
\<close>

definition lock :: "'a store \<Rightarrow> InterfaceWeakPtr \<Rightarrow> InterfacePtr" where
  "lock h w =
     (case w of
        None \<Rightarrow> None
      | Some a \<Rightarrow> (case h a of None \<Rightarrow> None | Some b \<Rightarrow> Some a))"

text \<open>
  The destructor of a shared pointer: the last owner frees the object, any other owner
  only gives up its share.
\<close>

definition release :: "InterfacePtr \<Rightarrow> 'a store \<Rightarrow> 'a store" where
  "release p h =
     (case p of
        None \<Rightarrow> h
      | Some a \<Rightarrow>
          (case h a of
             None \<Rightarrow> h
           | Some b \<Rightarrow>
               if use_count b \<le> 1 then h(a := None)
               else h(a \<mapsto> b\<lparr>use_count := use_count b - 1\<rparr>)))"

text \<open>
  The pointer members of \<^verbatim>\<open>StagePrivate\<close> (lines 131, 132, 147, 148): the two pull
  interfaces are owned, the two push targets are weak.
\<close>

record StagePrivate =
  starts :: InterfacePtr
  ends :: InterfacePtr
  prev_ends :: InterfaceWeakPtr
  next_starts :: InterfaceWeakPtr

definition prevEnds :: "'a store \<Rightarrow> StagePrivate \<Rightarrow> InterfacePtr" where
  "prevEnds h s = lock h (prev_ends s)"

definition nextStarts :: "'a store \<Rightarrow> StagePrivate \<Rightarrow> InterfacePtr" where
  "nextStarts h s = lock h (next_starts s)"

definition pullInterface :: "StagePrivate \<Rightarrow> Direction \<Rightarrow> InterfacePtr" where
  "pullInterface s dir = (if dir = FORWARD then starts s else ends s)"

definition pushInterface :: "'a store \<Rightarrow> StagePrivate \<Rightarrow> Direction \<Rightarrow> InterfacePtr" where
  "pushInterface h s dir =
     (if dir = FORWARD then lock h (next_starts s) else lock h (prev_ends s))"

text \<open>A weak pointer assigned from a shared one takes no share of the object.\<close>

definition setPrevEnds :: "InterfacePtr \<Rightarrow> StagePrivate \<Rightarrow> StagePrivate" where
  "setPrevEnds p s = s\<lparr>prev_ends := p\<rparr>"

definition setNextStarts :: "InterfacePtr \<Rightarrow> StagePrivate \<Rightarrow> StagePrivate" where
  "setNextStarts p s = s\<lparr>next_starts := p\<rparr>"

text \<open>
  The destructor of \<^verbatim>\<open>StagePrivate\<close> is the default one (line 62): the members are
  destroyed in the reverse order of their declaration, so \<^verbatim>\<open>ends_\<close> gives up its
  share before \<^verbatim>\<open>starts_\<close>. Destroying a weak pointer leaves the count alone.
\<close>

definition destroyStage :: "StagePrivate \<Rightarrow> 'a store \<Rightarrow> 'a store" where
  "destroyStage s h = release (starts s) (release (ends s) h)"


section \<open>The cost-ordered container and the Connecting stage\<close>

text \<open>
  Modelled from the spec: the container \<^verbatim>\<open>ordered<T, Compare>\<close> of
  \<^verbatim>\<open>cost_queue.h\<close>, which is not among the sources. It keeps its elements in
  ascending order of the comparison; insertion preserves the order, and ties are broken
  by insertion order (first in, first out among equal priority): a new element goes
  behind every element that is not greater. The first element is the best one.
\<close>

type_synonym 'a ordered = "'a list"

fun ordered_insert :: "('a \<Rightarrow> 'a \<Rightarrow> bool) \<Rightarrow> 'a \<Rightarrow> 'a ordered \<Rightarrow> 'a ordered" where
  "ordered_insert lt x [] = [x]"
| "ordered_insert lt x (y # ys) =
     (if lt x y then x # y # ys else y # ordered_insert lt x ys)"

text \<open>Modelled from the spec: \<^verbatim>\<open>empty()\<close> of the container.\<close>

definition ordered_empty :: "'a ordered \<Rightarrow> bool" where
  "ordered_empty q = (q = [])"

text \<open>
  Modelled from the spec: popping removes and returns the best element, the first in
  iteration order; there is nothing to pop from an empty container (\<open>None\<close>).
\<close>

definition ordered_pop :: "'a ordered \<Rightarrow> ('a \<times> 'a ordered) option" where
  "ordered_pop q = (case q of [] \<Rightarrow> None | x # rest \<Rightarrow> Some (x, rest))"

text \<open>The container after a sequence of insertions, and the comparison by a key.\<close>

definition less_by :: "('a \<Rightarrow> 'k::ord) \<Rightarrow> 'a \<Rightarrow> 'a \<Rightarrow> bool" where
  "less_by key x y = (key x < key y)"

definition inserted :: "('a \<Rightarrow> 'a \<Rightarrow> bool) \<Rightarrow> 'a list \<Rightarrow> 'a ordered" where
  "inserted lt xs = fold (ordered_insert lt) xs []"

text \<open>
  An interface state. Its priority type \<^verbatim>\<open>InterfaceState::Priority\<close> is declared
  outside these sources and is a parameter here: any type with an addition and a linear
  order. \<open>node\<close> stands for the identity of the list node an
  \<^verbatim>\<open>Interface::const_iterator\<close> refers to; an iterator is represented by the state it
  points to, which the spec has immutable once inserted.
\<close>

record 'p InterfaceState =
  node :: nat
  priority :: 'p

type_synonym 'p Interface = "'p InterfaceState ordered"

type_synonym 'p StatePair = "'p InterfaceState \<times> 'p InterfaceState"

text \<open>\<^verbatim>\<open>ConnectingPrivate::StatePairLess\<close> (lines 249 to 253), from the source.\<close>

definition StatePairLess :: "'p::{plus,ord} StatePair \<Rightarrow> 'p StatePair \<Rightarrow> bool" where
  "StatePairLess x y =
     (priority (fst x) + priority (snd x) < priority (fst y) + priority (snd y))"

text \<open>The combined priority of a pair: the sum of its two members' priorities.\<close>

definition combined :: "'p::plus StatePair \<Rightarrow> 'p" where
  "combined x = priority (fst x) + priority (snd x)"

text \<open>
  The Connecting stage: the contents of the two pull interfaces that \<^verbatim>\<open>starts_\<close> and
  \<^verbatim>\<open>ends_\<close> point to, and the member \<^verbatim>\<open>pending\<close> (line 271).
\<close>

record 'p ConnectingPrivate =
  start_states :: "'p Interface"
  end_states :: "'p Interface"
  pending :: "'p StatePair ordered"

definition pull_states :: "'p ConnectingPrivate \<Rightarrow> Direction \<Rightarrow> 'p Interface" where
  "pull_states c dir = (if dir = FORWARD then start_states c else end_states c)"

text \<open>
  Modelled from the spec: \<^verbatim>\<open>Interface::add\<close> (\<^verbatim>\<open>storage.h\<close> is not among the
  sources) inserts the state preserving the order by ascending priority and returns a
  stable handle to it. In this stage no state leaves an interface, so the number of
  states already there is a fresh identity for the new node.
\<close>

definition Interface_add ::
  "'p::ord \<Rightarrow> 'p Interface \<Rightarrow> 'p InterfaceState \<times> 'p Interface" where
  "Interface_add p q =
     (let it = \<lparr>node = length q, priority = p\<rparr>
      in (it, ordered_insert (less_by priority) it q))"

text \<open>
  Modelled from the spec: \<^verbatim>\<open>make_pair\<close> is only declared (lines 255 to 256; its body
  is not among the sources). A pair is (start-side state, end-side state). The template
  argument is the direction of the other interface: \<open>BACKWARD\<close> when the first state
  is a start state and the second an end state, \<open>FORWARD\<close> when it is the other way
  round.
\<close>

definition make_pair ::
  "Direction \<Rightarrow> 'p InterfaceState \<Rightarrow> 'p InterfaceState \<Rightarrow> 'p StatePair" where
  "make_pair other first second = (if other = BACKWARD then (first, second) else (second, first))"

text \<open>
  Modelled from the spec: \<^verbatim>\<open>newState\<close> is only declared (lines 266 to 268; its body
  is in \<^verbatim>\<open>stage.cpp\<close>, which is not among the sources). On a new state arriving at
  one interface the stage forms a pair with every state currently on the other side and
  inserts it into the pending queue. Only the arrival of a new state is modelled (the
  flag \<^verbatim>\<open>updated\<close> of the declaration is false): the spec has a state immutable once
  it is inserted.
\<close>

definition newState ::
  "Direction \<Rightarrow> 'p::{plus,ord} InterfaceState \<Rightarrow> 'p ConnectingPrivate \<Rightarrow> 'p ConnectingPrivate" where
  "newState other it c =
     c\<lparr>pending :=
         fold (\<lambda>oit q. ordered_insert StatePairLess (make_pair other it oit) q)
           (pull_states c other) (pending c)\<rparr>"

text \<open>
  Modelled from the spec: \<^verbatim>\<open>canCompute\<close> of the Connecting stage is only declared
  (line 262). It is true iff the pending queue is not empty.
\<close>

definition canCompute :: "'p ConnectingPrivate \<Rightarrow> bool" where
  "canCompute c = (\<not> ordered_empty (pending c))"

text \<open>
  Modelled from the spec: \<^verbatim>\<open>compute\<close> of the Connecting stage is only declared
  (line 263). It pops the best pending pair and hands it to the bridging attempt. The
  result is the popped pair and the stage afterwards, or \<open>None\<close> when there is
  nothing to pop.
\<close>

definition compute :: "'p ConnectingPrivate \<Rightarrow> ('p StatePair \<times> 'p ConnectingPrivate) option" where
  "compute c =
     (case ordered_pop (pending c) of
        None \<Rightarrow> None
      | Some (best, rest) \<Rightarrow> Some (best, c\<lparr>pending := rest\<rparr>))"

text \<open>
  Modelled from the spec: what happens to the stage. A state of the given priority is
  added to the start or to the end interface, which notifies the stage of the new state;
  or the scheduler takes a turn, calling \<^verbatim>\<open>compute\<close> when \<^verbatim>\<open>canCompute\<close>
  holds. The second component lists the pairs popped so far, oldest first.
\<close>

datatype 'p event = StartArrives 'p | EndArrives 'p | SchedulerTurn

fun step ::
  "'p::{plus,ord} event \<Rightarrow> 'p ConnectingPrivate \<times> 'p StatePair list \<Rightarrow>
   'p ConnectingPrivate \<times> 'p StatePair list" where
  "step (StartArrives p) (c, out) =
     (case Interface_add p (start_states c) of
        (it, q) \<Rightarrow> (newState BACKWARD it (c\<lparr>start_states := q\<rparr>), out))"
| "step (EndArrives p) (c, out) =
     (case Interface_add p (end_states c) of
        (it, q) \<Rightarrow> (newState FORWARD it (c\<lparr>end_states := q\<rparr>), out))"
| "step SchedulerTurn (c, out) =
     (if canCompute c then
        (case compute c of None \<Rightarrow> (c, out) | Some (best, c') \<Rightarrow> (c', out @ [best]))
      else (c, out))"

text \<open>
  Modelled from the spec: a new stage has empty interfaces and no pending pair; a run
  processes the events in order.
\<close>

definition initial :: "'p ConnectingPrivate" where
  "initial = \<lparr>start_states = [], end_states = [], pending = []\<rparr>"

definition run :: "'p::{plus,ord} event list \<Rightarrow> 'p ConnectingPrivate \<times> 'p StatePair list" where
  "run evs = fold step evs (initial, [])"

fun n_starts :: "'p event list \<Rightarrow> nat" where
  "n_starts [] = 0"
| "n_starts (StartArrives p # evs) = Suc (n_starts evs)"
| "n_starts (e # evs) = n_starts evs"

fun n_ends :: "'p event list \<Rightarrow> nat" where
  "n_ends [] = 0"
| "n_ends (EndArrives p # evs) = Suc (n_ends evs)"
| "n_ends (e # evs) = n_ends evs"

text \<open>
  What holds of the stage and the pairs popped so far after any sequence of events: the
  states on either side are distinct nodes, the pending queue is in ascending order of
  combined priority, and the pending and the popped pairs together are the pairs of a
  start state and an end state, each once.
\<close>

definition connecting_inv ::
  "'p::{plus,linorder} ConnectingPrivate \<times> 'p StatePair list \<Rightarrow> bool" where
  "connecting_inv s =
     (case s of (c, out) \<Rightarrow>
        distinct (start_states c)
      \<and> (\<forall>x \<in> set (start_states c). node x < length (start_states c))
      \<and> distinct (end_states c)
      \<and> (\<forall>x \<in> set (end_states c). node x < length (end_states c))
      \<and> sorted (map combined (pending c))
      \<and> set (pending c) \<union> set out = set (start_states c) \<times> set (end_states c)
      \<and> distinct (pending c @ out))"


section \<open>Properties of the task display\<close>

lemma deliver_enqueues: "deliver r d = d\<lparr>mainloop_jobs := mainloop_jobs d @ [job_of r]\<rparr>"
  by (cases r)
     (simp_all add: taskDescriptionCB_def taskStatisticsCB_def taskSolutionCB_def addJob_def Let_def)

lemma fold_deliver_enqueues:
  "fold deliver rs d = d\<lparr>mainloop_jobs := mainloop_jobs d @ map job_of rs\<rparr>"
  by (induction rs arbitrary: d) (simp_all add: deliver_enqueues)

lemma runJob_with_model:
  "task_list_model d = Some m \<Longrightarrow>
   runJob j d = Inr (d\<lparr>task_list_model := Some (m @ [call_of j]),
       trajectory_visual :=
         (trajectory_visual d)\<lparr>shown := shown (trajectory_visual d) @ trajectories_of [j]\<rparr>\<rparr>)"
  by (cases j)
     (simp_all add: processTaskDescriptionMessage_def processTaskStatisticsMessage_def
        processSolutionMessage_def showTrajectory_def)

lemma trajectories_of_Cons: "trajectories_of (j # js) = trajectories_of [j] @ trajectories_of js"
  by (cases j) simp_all

lemma executeJobs_with_model:
  "task_list_model d = Some m \<Longrightarrow>
   executeJobs js d = Inr (d\<lparr>task_list_model := Some (m @ map call_of js),
       trajectory_visual :=
         (trajectory_visual d)\<lparr>shown := shown (trajectory_visual d) @ trajectories_of js\<rparr>\<rparr>)"
proof (induction js arbitrary: d m)
  case Nil
  then show ?case by simp
next
  case (Cons j js)
  let ?d' = "d\<lparr>task_list_model := Some (m @ [call_of j]),
       trajectory_visual :=
         (trajectory_visual d)\<lparr>shown := shown (trajectory_visual d) @ trajectories_of [j]\<rparr>\<rparr>"
  have first: "runJob j d = Inr ?d'" using Cons.prems by (rule runJob_with_model)
  have "task_list_model ?d' = Some (m @ [call_of j])" by simp
  from Cons.IH [OF this] first show ?case
    by (simp add: trajectories_of_Cons [of j js])
qed

lemma update_nothing_queued:
  "mainloop_jobs d = [] \<Longrightarrow>
   update d = Inr (d\<lparr>trajectory_visual := visual_update (trajectory_visual d)\<rparr>)"
  by (simp add: update_def)

text \<open>
  Claim C8. A received task description, task statistics or solution message is never
  applied to the task model in the subscriber callback. Whatever messages arrive, in
  whatever order, the callbacks leave the task list model and the trajectory visualization
  as they were and only append one job per message to the job queue. The queued work is
  done by \<^verbatim>\<open>update\<close>: with nothing queued it touches neither the model nor the shown
  trajectories, and with a model present it makes the model calls and shows the
  trajectories of the queued jobs, in the order the messages came, and empties the queue.
\<close>

theorem received_messages_only_enqueue:
  "task_list_model (fold deliver rs d) = task_list_model d
   \<and> trajectory_visual (fold deliver rs d) = trajectory_visual d
   \<and> mainloop_jobs (fold deliver rs d) = mainloop_jobs d @ map job_of rs
   \<and> (mainloop_jobs d = [] \<longrightarrow>
        (\<exists>d'. update d = Inr d' \<and> task_list_model d' = task_list_model d
           \<and> shown (trajectory_visual d') = shown (trajectory_visual d)))
   \<and> (mainloop_jobs d = [] \<and> task_list_model d = Some m \<longrightarrow>
        update (fold deliver rs d) =
          Inr \<lparr>task_list_model = Some (m @ map call_of (map job_of rs)),
               trajectory_visual =
                 \<lparr>shown = shown (trajectory_visual d) @ trajectories_of (map job_of rs),
                  updates = Suc (updates (trajectory_visual d))\<rparr>,
               mainloop_jobs = []\<rparr>)"
proof -
  have "update (fold deliver rs d) =
          Inr \<lparr>task_list_model = Some (m @ map call_of (map job_of rs)),
               trajectory_visual =
                 \<lparr>shown = shown (trajectory_visual d) @ trajectories_of (map job_of rs),
                  updates = Suc (updates (trajectory_visual d))\<rparr>,
               mainloop_jobs = []\<rparr>"
    if e: "mainloop_jobs d = []" and m: "task_list_model d = Some m"
  proof -
    let ?d0 = "(fold deliver rs d)\<lparr>mainloop_jobs := []\<rparr>"
    have "task_list_model ?d0 = Some m" using m by (simp add: fold_deliver_enqueues)
    from executeJobs_with_model [OF this, of "map job_of rs"] e show ?thesis
      by (simp add: update_def fold_deliver_enqueues visual_update_def)
  qed
  moreover have "\<exists>d'. update d = Inr d' \<and> task_list_model d' = task_list_model d
           \<and> shown (trajectory_visual d') = shown (trajectory_visual d)"
    if "mainloop_jobs d = []"
    using that by (simp add: update_nothing_queued visual_update_def)
  ultimately show ?thesis by (simp add: fold_deliver_enqueues)
qed

theorem received_messages_only_enqueue_witness:
  "update (fold deliver
      [OnDescription \<lparr>getPublisherName = ''planner'',
         getMessage = \<lparr>msg_id = ''pick'', description_body = ''d''\<rparr>\<rparr>,
       OnSolution \<lparr>getPublisherName = ''planner'',
         getMessage = \<lparr>task_id = ''pick'', solution_body = ''s1''\<rparr>\<rparr>]
      \<lparr>task_list_model = Some [], trajectory_visual = \<lparr>shown = [], updates = 0\<rparr>,
       mainloop_jobs = []\<rparr>) =
    Inr \<lparr>task_list_model = Some
           [ProcessTaskDescriptionMessage ''planner/pick''
              \<lparr>msg_id = ''pick'', description_body = ''d''\<rparr>,
            ProcessSolutionMessage ''planner/pick''
              \<lparr>task_id = ''pick'', solution_body = ''s1''\<rparr>],
         trajectory_visual =
           \<lparr>shown = [\<lparr>task_id = ''pick'', solution_body = ''s1''\<rparr>], updates = 1\<rparr>,
         mainloop_jobs = []\<rparr>
 \<and> task_list_model (fold deliver
      [OnDescription \<lparr>getPublisherName = ''planner'',
         getMessage = \<lparr>msg_id = ''pick'', description_body = ''d''\<rparr>\<rparr>,
       OnSolution \<lparr>getPublisherName = ''planner'',
         getMessage = \<lparr>task_id = ''pick'', solution_body = ''s1''\<rparr>\<rparr>]
      \<lparr>task_list_model = Some [], trajectory_visual = \<lparr>shown = [], updates = 0\<rparr>,
       mainloop_jobs = []\<rparr>) = Some []"
  using received_messages_only_enqueue
    [of "[OnDescription \<lparr>getPublisherName = ''planner'',
            getMessage = \<lparr>msg_id = ''pick'', description_body = ''d''\<rparr>\<rparr>,
          OnSolution \<lparr>getPublisherName = ''planner'',
            getMessage = \<lparr>task_id = ''pick'', solution_body = ''s1''\<rparr>\<rparr>]"
        "\<lparr>task_list_model = Some [], trajectory_visual = \<lparr>shown = [], updates = 0\<rparr>,
          mainloop_jobs = []\<rparr>" "[]"]
  by simp

text \<open>
  Claim C10. The job made for a received solution message always shows the trajectory of
  that message, whether or not a task list model exists: running it never faults and
  appends the message to the shown trajectories. Only the model update depends on the
  model pointer: a null pointer stays null and nothing is processed, a model gets the
  \<^verbatim>\<open>processSolutionMessage\<close> call. In particular a solution received while no model
  exists and nothing else is queued is shown by the next \<^verbatim>\<open>update\<close>.
\<close>

theorem solution_shown_without_model:
  "(\<exists>d'. runJob (SolutionJob name msg) d = Inr d'
       \<and> shown (trajectory_visual d') = shown (trajectory_visual d) @ [msg]
       \<and> (task_list_model d = None \<longrightarrow> task_list_model d' = None)
       \<and> (\<forall>m. task_list_model d = Some m \<longrightarrow>
             task_list_model d' = Some (m @ [ProcessSolutionMessage name msg])))
 \<and> (mainloop_jobs d = [] \<and> task_list_model d = None \<longrightarrow>
       update (taskSolutionCB event d) =
         Inr \<lparr>task_list_model = None,
              trajectory_visual =
                \<lparr>shown = shown (trajectory_visual d) @ [getMessage event],
                 updates = Suc (updates (trajectory_visual d))\<rparr>,
              mainloop_jobs = []\<rparr>)"
  by (cases "task_list_model d")
     (simp_all add: processSolutionMessage_def showTrajectory_def update_def taskSolutionCB_def
        addJob_def Let_def visual_update_def)

theorem solution_shown_without_model_witness:
  "update (taskSolutionCB
      \<lparr>getPublisherName = ''planner'',
        getMessage = \<lparr>task_id = ''pick'', solution_body = ''s1''\<rparr>\<rparr>
      \<lparr>task_list_model = None, trajectory_visual = \<lparr>shown = [], updates = 0\<rparr>,
        mainloop_jobs = []\<rparr>) =
    Inr \<lparr>task_list_model = None,
         trajectory_visual =
           \<lparr>shown = [\<lparr>task_id = ''pick'', solution_body = ''s1''\<rparr>], updates = 1\<rparr>,
         mainloop_jobs = []\<rparr>"
  using solution_shown_without_model
    [of _ _ "\<lparr>task_list_model = None, trajectory_visual = \<lparr>shown = [], updates = 0\<rparr>,
              mainloop_jobs = []\<rparr>"
        "\<lparr>getPublisherName = ''planner'',
          getMessage = \<lparr>task_id = ''pick'', solution_body = ''s1''\<rparr>\<rparr>"]
  by simp


section \<open>Properties of the push interfaces\<close>

lemma lock_live: "lock h w = Some a \<Longrightarrow> a \<in> dom h"
  by (auto simp: lock_def split: option.splits)

lemma release_sole_owner:
  "h a = Some b \<Longrightarrow> use_count b = 1 \<Longrightarrow> release (Some a) h a = None"
  by (simp add: release_def)

lemma release_stays_freed: "h a = None \<Longrightarrow> release p h a = None"
  by (auto simp: release_def split: option.splits)

lemma release_other: "p \<noteq> Some a \<Longrightarrow> release p h a = h a"
  by (auto simp: release_def split: option.splits)

lemma destroy_frees_starts:
  assumes "starts n = Some a" "h a = Some b" "use_count b = 1"
  shows "destroyStage n h a = None"
proof (cases "ends n = Some a")
  case True
  then have "release (ends n) h a = None" using assms by (simp add: release_sole_owner)
  then show ?thesis unfolding destroyStage_def by (rule release_stays_freed)
next
  case False
  then have "release (ends n) h a = Some b" using assms by (simp add: release_other)
  then show ?thesis unfolding destroyStage_def assms(1) using assms(3)
    by (rule release_sole_owner)
qed

lemma destroy_frees_ends:
  assumes "ends n = Some a" "h a = Some b" "use_count b = 1"
  shows "destroyStage n h a = None"
proof -
  have "release (ends n) h a = None" using assms by (simp add: release_sole_owner)
  then show ?thesis unfolding destroyStage_def by (rule release_stays_freed)
qed

text \<open>
  Claim C7. A stage holds its push targets, the next stage's start interface and the
  previous stage's end interface, only as weak pointers. Whatever
  \<^verbatim>\<open>pushInterface\<close>, \<^verbatim>\<open>nextStarts\<close> or \<^verbatim>\<open>prevEnds\<close> returns is either
  empty or a live interface, never a freed one. Once the neighbour \<open>n\<close> that owns the
  target (it holds the only shared pointer to it) is destroyed, they return the empty
  pointer, so the caller of a push can see that the target is gone.
\<close>

theorem push_target_expires_with_owner:
  "(\<forall>a. pushInterface h s dir = Some a \<longrightarrow> a \<in> dom h)
 \<and> (\<forall>a. nextStarts h s = Some a \<longrightarrow> a \<in> dom h)
 \<and> (\<forall>a. prevEnds h s = Some a \<longrightarrow> a \<in> dom h)
 \<and> (\<forall>a b. next_starts s = Some a \<and> starts n = Some a \<and> h a = Some b \<and> use_count b = 1 \<longrightarrow>
        nextStarts (destroyStage n h) s = None
      \<and> pushInterface (destroyStage n h) s FORWARD = None)
 \<and> (\<forall>a b. prev_ends s = Some a \<and> ends n = Some a \<and> h a = Some b \<and> use_count b = 1 \<longrightarrow>
        prevEnds (destroyStage n h) s = None
      \<and> pushInterface (destroyStage n h) s BACKWARD = None)"
proof (intro conjI allI impI)
  fix a
  show "pushInterface h s dir = Some a \<Longrightarrow> a \<in> dom h"
    by (auto simp: pushInterface_def dest: lock_live split: if_splits)
  show "nextStarts h s = Some a \<Longrightarrow> a \<in> dom h"
    by (auto simp: nextStarts_def dest: lock_live)
  show "prevEnds h s = Some a \<Longrightarrow> a \<in> dom h"
    by (auto simp: prevEnds_def dest: lock_live)
next
  fix a b
  assume "next_starts s = Some a \<and> starts n = Some a \<and> h a = Some b \<and> use_count b = 1"
  then have "next_starts s = Some a" and "destroyStage n h a = None"
    by (simp_all add: destroy_frees_starts)
  then show "nextStarts (destroyStage n h) s = None"
    "pushInterface (destroyStage n h) s FORWARD = None"
    by (simp_all add: nextStarts_def pushInterface_def lock_def)
next
  fix a b
  assume "prev_ends s = Some a \<and> ends n = Some a \<and> h a = Some b \<and> use_count b = 1"
  then have "prev_ends s = Some a" and "destroyStage n h a = None"
    by (simp_all add: destroy_frees_ends)
  then show "prevEnds (destroyStage n h) s = None"
    "pushInterface (destroyStage n h) s BACKWARD = None"
    by (simp_all add: prevEnds_def pushInterface_def lock_def)
qed

theorem push_target_expires_with_owner_witness:
  "pushInterface
     [0 \<mapsto> \<lparr>use_count = 1, object = ''starts of n''\<rparr>,
      1 \<mapsto> \<lparr>use_count = 1, object = ''ends of n''\<rparr>]
     (setNextStarts (Some 0)
        \<lparr>starts = None, ends = None, prev_ends = None, next_starts = None\<rparr>)
     FORWARD = Some 0
 \<and> pushInterface
     (destroyStage \<lparr>starts = Some 0, ends = Some 1, prev_ends = None, next_starts = None\<rparr>
        [0 \<mapsto> \<lparr>use_count = 1, object = ''starts of n''\<rparr>,
         1 \<mapsto> \<lparr>use_count = 1, object = ''ends of n''\<rparr>])
     (setNextStarts (Some 0)
        \<lparr>starts = None, ends = None, prev_ends = None, next_starts = None\<rparr>)
     FORWARD = None"
proof -
  let ?h = "[0 \<mapsto> \<lparr>use_count = 1, object = ''starts of n''\<rparr>,
             1 \<mapsto> \<lparr>use_count = 1, object = ''ends of n''\<rparr>] :: string store"
  let ?n = "\<lparr>starts = Some 0, ends = Some 1, prev_ends = None, next_starts = None\<rparr>"
  let ?s = "setNextStarts (Some 0)
              \<lparr>starts = None, ends = None, prev_ends = None, next_starts = None\<rparr>"
  have owner: "next_starts ?s = Some 0 \<and> starts ?n = Some 0
      \<and> ?h 0 = Some \<lparr>use_count = 1, object = ''starts of n''\<rparr>
      \<and> use_count \<lparr>use_count = 1, object = ''starts of n''\<rparr> = 1"
    by (simp add: setNextStarts_def)
  have "pushInterface (destroyStage ?n ?h) ?s FORWARD = None"
    using push_target_expires_with_owner [of ?h ?s FORWARD ?n] owner by blast
  moreover have "pushInterface ?h ?s FORWARD = Some 0"
    by (simp add: pushInterface_def setNextStarts_def lock_def)
  ultimately show ?thesis by blast
qed


section \<open>Properties of the cost-ordered container\<close>

lemma set_ordered_insert: "set (ordered_insert lt x xs) = insert x (set xs)"
  by (induction xs) auto

lemma length_ordered_insert: "length (ordered_insert lt x xs) = Suc (length xs)"
  by (induction xs) auto

lemma mset_ordered_insert: "mset (ordered_insert lt x xs) = add_mset x (mset xs)"
  by (induction xs) auto

lemma distinct_ordered_insert:
  "distinct (ordered_insert lt x xs) \<longleftrightarrow> x \<notin> set xs \<and> distinct xs"
  by (induction xs) (auto simp: set_ordered_insert)

lemma sorted_ordered_insert:
  fixes key :: "'a \<Rightarrow> 'k::linorder"
  shows "sorted (map key xs) \<Longrightarrow> sorted (map key (ordered_insert (less_by key) x xs))"
  by (induction xs) (auto simp: set_ordered_insert less_by_def)

text \<open>
  Inserting into a sorted container puts the new element behind the elements of its own
  key and leaves the order of every other key class alone.
\<close>

lemma filter_ordered_insert:
  fixes key :: "'a \<Rightarrow> 'k::linorder"
  assumes "sorted (map key xs)"
  shows "filter (\<lambda>y. key y = k) (ordered_insert (less_by key) x xs) =
         filter (\<lambda>y. key y = k) xs @ (if key x = k then [x] else [])"
  using assms
proof (induction xs)
  case Nil
  then show ?case by simp
next
  case (Cons y ys)
  show ?case
  proof (cases "key x < key y")
    case True
    have "\<forall>z \<in> set (y # ys). key x < key z"
      using Cons.prems True by auto
    then have "key x = k \<Longrightarrow> filter (\<lambda>y. key y = k) (y # ys) = []"
      by (auto simp: filter_empty_conv simp del: filter.simps)
    with True show ?thesis by (auto simp: less_by_def)
  next
    case False
    with Cons show ?thesis by (auto simp: less_by_def)
  qed
qed

lemma fold_insert_props:
  fixes key :: "'a \<Rightarrow> 'k::linorder"
  assumes "sorted (map key acc)"
  shows "sorted (map key (fold (ordered_insert (less_by key)) xs acc))
       \<and> mset (fold (ordered_insert (less_by key)) xs acc) = mset acc + mset xs
       \<and> filter (\<lambda>y. key y = k) (fold (ordered_insert (less_by key)) xs acc) =
           filter (\<lambda>y. key y = k) acc @ filter (\<lambda>y. key y = k) xs"
  using assms
proof (induction xs arbitrary: acc)
  case Nil
  then show ?case by simp
next
  case (Cons x xs)
  have s: "sorted (map key (ordered_insert (less_by key) x acc))"
    using Cons.prems by (rule sorted_ordered_insert)
  from Cons.IH [OF s] show ?case
    by (simp add: mset_ordered_insert filter_ordered_insert [OF Cons.prems])
qed

lemma inserted_sort_key:
  fixes key :: "'a \<Rightarrow> 'k::linorder"
  shows "inserted (less_by key) xs = sort_key key xs"
proof -
  have p: "sorted (map key (inserted (less_by key) xs))"
    "mset (inserted (less_by key) xs) = mset xs"
    "\<And>k. filter (\<lambda>y. key y = k) (inserted (less_by key) xs) = filter (\<lambda>y. key y = k) xs"
    using fold_insert_props [of key "[]" xs] by (simp_all add: inserted_def)
  have "sort_key key xs = inserted (less_by key) xs"
  proof (rule properties_for_sort_key)
    show "mset (inserted (less_by key) xs) = mset xs" by (rule p)
    show "sorted (map key (inserted (less_by key) xs))" by (rule p)
    show "filter (\<lambda>x. key k = key x) (inserted (less_by key) xs) =
          filter (\<lambda>x. key k = key x) xs" for k
      using p(3) [of "key k"] by (simp add: eq_commute)
  qed
  then show ?thesis by simp
qed

lemma StatePairLess_less_by: "StatePairLess = less_by combined"
  by (simp add: fun_eq_iff StatePairLess_def less_by_def combined_def)

text \<open>
  Claim C4. In the cost-ordered container, elements of equal priority are kept in the
  order of their insertion. After inserting \<open>xs\<close> one by one, the container is sorted
  by priority, holds exactly the inserted elements, and for every priority \<open>k\<close> the
  elements of priority \<open>k\<close> stand in the order in which they were inserted. The
  iteration order is determined by the insertion sequence: any arrangement with these
  three properties is the container's. The same holds of the pending pairs, whose
  comparison is \<^verbatim>\<open>StatePairLess\<close>.
\<close>

theorem ordered_ties_fifo:
  fixes key :: "'a \<Rightarrow> 'k::linorder"
    and ps :: "'p::{plus,linorder} StatePair list"
  shows "sorted (map key (inserted (less_by key) xs))
    \<and> mset (inserted (less_by key) xs) = mset xs
    \<and> (\<forall>k. filter (\<lambda>x. key x = k) (inserted (less_by key) xs) = filter (\<lambda>x. key x = k) xs)
    \<and> (\<forall>ys. sorted (map key ys) \<and> mset ys = mset xs
            \<and> (\<forall>k. filter (\<lambda>x. key x = k) ys = filter (\<lambda>x. key x = k) xs)
          \<longrightarrow> ys = inserted (less_by key) xs)
    \<and> (\<forall>k. filter (\<lambda>x. combined x = k) (inserted StatePairLess ps) =
            filter (\<lambda>x. combined x = k) ps)"
proof (intro conjI allI impI)
  have p: "sorted (map key (inserted (less_by key) xs))"
    "mset (inserted (less_by key) xs) = mset xs"
    "\<And>k. filter (\<lambda>y. key y = k) (inserted (less_by key) xs) = filter (\<lambda>y. key y = k) xs"
    using fold_insert_props [of key "[]" xs] by (simp_all add: inserted_def)
  show "sorted (map key (inserted (less_by key) xs))" by (rule p)
  show "mset (inserted (less_by key) xs) = mset xs" by (rule p)
  show "filter (\<lambda>x. key x = k) (inserted (less_by key) xs) = filter (\<lambda>x. key x = k) xs" for k
    by (rule p)
  show "ys = inserted (less_by key) xs"
    if h: "sorted (map key ys) \<and> mset ys = mset xs
            \<and> (\<forall>k. filter (\<lambda>x. key x = k) ys = filter (\<lambda>x. key x = k) xs)" for ys
  proof -
    have "sort_key key xs = ys"
    proof (rule properties_for_sort_key)
      show "mset ys = mset xs" using h by simp
      show "sorted (map key ys)" using h by simp
      show "filter (\<lambda>x. key k = key x) ys = filter (\<lambda>x. key k = key x) xs" for k
      proof -
        from h have "filter (\<lambda>x. key x = key k) ys = filter (\<lambda>x. key x = key k) xs" by blast
        then show ?thesis by (simp add: eq_commute)
      qed
    qed
    then show ?thesis by (simp add: inserted_sort_key)
  qed
  show "filter (\<lambda>x. combined x = k) (inserted StatePairLess ps) =
        filter (\<lambda>x. combined x = k) ps" for k
    using fold_insert_props [of combined "[]" ps k]
    by (simp add: inserted_def StatePairLess_less_by)
qed

theorem ordered_ties_fifo_witness:
  "inserted (less_by snd) [(1::nat, 2::nat), (2, 1), (3, 2), (4, 1)] =
     [(2, 1), (4, 1), (1, 2), (3, 2)]"
proof -
  let ?xs = "[(1::nat, 2::nat), (2, 1), (3, 2), (4, 1)]"
  let ?ys = "[(2::nat, 1::nat), (4, 1), (1, 2), (3, 2)]"
  have 1: "sorted (map snd ?ys)" by simp
  have 2: "mset ?ys = mset ?xs" by simp
  have 3: "\<forall>k. filter (\<lambda>x. snd x = k) ?ys = filter (\<lambda>x. snd x = k) ?xs" by simp
  from ordered_ties_fifo [of snd ?xs] 1 2 3 have "?ys = inserted (less_by snd) ?xs" by blast
  then show ?thesis by simp
qed


section \<open>Properties of the Connecting stage\<close>

lemma set_fold_insert:
  "set (fold (\<lambda>y q. ordered_insert lt (f y) q) ys q0) = set q0 \<union> f ` set ys"
  by (induction ys arbitrary: q0) (auto simp: set_ordered_insert)

lemma length_fold_insert:
  "length (fold (\<lambda>y q. ordered_insert lt (f y) q) ys q0) = length q0 + length ys"
  by (induction ys arbitrary: q0) (auto simp: length_ordered_insert)

lemma sorted_fold_insert:
  fixes key :: "'a \<Rightarrow> 'k::linorder"
  shows "sorted (map key q0) \<Longrightarrow>
         sorted (map key (fold (\<lambda>y q. ordered_insert (less_by key) (f y) q) ys q0))"
  by (induction ys arbitrary: q0) (auto simp: sorted_ordered_insert)

lemma distinct_fold_insert:
  assumes "distinct q0" "distinct ys" "inj_on f (set ys)" "f ` set ys \<inter> set q0 = {}"
  shows "distinct (fold (\<lambda>y q. ordered_insert lt (f y) q) ys q0)"
  using assms
proof (induction ys arbitrary: q0)
  case Nil
  then show ?case by simp
next
  case (Cons y ys)
  have "distinct (ordered_insert lt (f y) q0)"
    using Cons.prems by (auto simp: distinct_ordered_insert)
  moreover have "f ` set ys \<inter> set (ordered_insert lt (f y) q0) = {}"
    using Cons.prems by (auto simp: set_ordered_insert inj_on_def)
  ultimately show ?case
    using Cons.prems Cons.IH [of "ordered_insert lt (f y) q0"] by simp
qed

lemma Interface_add_props:
  assumes "Interface_add p q = (it, q')"
  shows "it = \<lparr>node = length q, priority = p\<rparr>" "set q' = insert it (set q)"
    "length q' = Suc (length q)" "distinct q' \<longleftrightarrow> it \<notin> set q \<and> distinct q"
  using assms
  by (auto simp: Interface_add_def Let_def set_ordered_insert length_ordered_insert
      distinct_ordered_insert)

lemma fresh_node:
  assumes "\<forall>x \<in> set q. node x < length q"
  shows "\<lparr>node = length q, priority = p\<rparr> \<notin> set q"
proof
  assume "\<lparr>node = length q, priority = p\<rparr> \<in> set q"
  with assms have "node \<lparr>node = length q, priority = p\<rparr> < length q" by blast
  then show False by simp
qed

lemma step_start_inv:
  fixes c :: "'p::{plus,linorder} ConnectingPrivate"
  assumes inv: "connecting_inv (c, out)"
  shows "connecting_inv (step (StartArrives p) (c, out))"
proof -
  obtain it q where add: "Interface_add p (start_states c) = (it, q)"
    by (cases "Interface_add p (start_states c)")
  note ap = Interface_add_props [OF add]
  let ?f = "make_pair BACKWARD it"
  let ?pend = "fold (\<lambda>oit q. ordered_insert StatePairLess (?f oit) q) (end_states c) (pending c)"
  have st: "step (StartArrives p) (c, out) = (c\<lparr>start_states := q, pending := ?pend\<rparr>, out)"
    using add by (simp add: newState_def pull_states_def)
  from inv have d1: "distinct (start_states c)"
    and b1: "\<forall>x \<in> set (start_states c). node x < length (start_states c)"
    and d2: "distinct (end_states c)"
    and b2: "\<forall>x \<in> set (end_states c). node x < length (end_states c)"
    and so: "sorted (map combined (pending c))"
    and se: "set (pending c) \<union> set out = set (start_states c) \<times> set (end_states c)"
    and di: "distinct (pending c @ out)"
    by (simp_all add: connecting_inv_def)
  have fresh: "it \<notin> set (start_states c)" using fresh_node [OF b1] ap(1) by simp
  have f: "?f oit = (it, oit)" for oit by (simp add: make_pair_def)
  have new_old: "?f ` set (end_states c) \<inter> (set (pending c) \<union> set out) = {}"
    using fresh se by (auto simp: f)
  have setp: "set ?pend = set (pending c) \<union> ?f ` set (end_states c)"
    by (rule set_fold_insert)
  have "distinct ?pend"
  proof (rule distinct_fold_insert)
    show "distinct (pending c)" using di by simp
    show "distinct (end_states c)" by (rule d2)
    show "inj_on ?f (set (end_states c))" by (simp add: inj_on_def f)
    show "?f ` set (end_states c) \<inter> set (pending c) = {}" using new_old by blast
  qed
  moreover have "set ?pend \<inter> set out = {}"
    using di new_old unfolding setp by auto
  ultimately have di': "distinct (?pend @ out)" using di by simp
  have so': "sorted (map combined ?pend)"
    unfolding StatePairLess_less_by using so by (rule sorted_fold_insert)
  have se': "set ?pend \<union> set out = set q \<times> set (end_states c)"
    unfolding setp ap(2) using se by (auto simp: f)
  have b1': "\<forall>x \<in> set q. node x < length q"
    using b1 ap(1) unfolding ap(2) ap(3) by auto
  have d1': "distinct q" using ap(4) fresh d1 by simp
  show ?thesis
    unfolding st using d1' b1' d2 b2 so' se' di' by (simp add: connecting_inv_def)
qed

lemma step_end_inv:
  fixes c :: "'p::{plus,linorder} ConnectingPrivate"
  assumes inv: "connecting_inv (c, out)"
  shows "connecting_inv (step (EndArrives p) (c, out))"
proof -
  obtain it q where add: "Interface_add p (end_states c) = (it, q)"
    by (cases "Interface_add p (end_states c)")
  note ap = Interface_add_props [OF add]
  let ?f = "make_pair FORWARD it"
  let ?pend = "fold (\<lambda>oit q. ordered_insert StatePairLess (?f oit) q) (start_states c) (pending c)"
  have st: "step (EndArrives p) (c, out) = (c\<lparr>end_states := q, pending := ?pend\<rparr>, out)"
    using add by (simp add: newState_def pull_states_def)
  from inv have d1: "distinct (start_states c)"
    and b1: "\<forall>x \<in> set (start_states c). node x < length (start_states c)"
    and d2: "distinct (end_states c)"
    and b2: "\<forall>x \<in> set (end_states c). node x < length (end_states c)"
    and so: "sorted (map combined (pending c))"
    and se: "set (pending c) \<union> set out = set (start_states c) \<times> set (end_states c)"
    and di: "distinct (pending c @ out)"
    by (simp_all add: connecting_inv_def)
  have fresh: "it \<notin> set (end_states c)" using fresh_node [OF b2] ap(1) by simp
  have f: "?f oit = (oit, it)" for oit by (simp add: make_pair_def)
  have new_old: "?f ` set (start_states c) \<inter> (set (pending c) \<union> set out) = {}"
    using fresh se by (auto simp: f)
  have setp: "set ?pend = set (pending c) \<union> ?f ` set (start_states c)"
    by (rule set_fold_insert)
  have "distinct ?pend"
  proof (rule distinct_fold_insert)
    show "distinct (pending c)" using di by simp
    show "distinct (start_states c)" by (rule d1)
    show "inj_on ?f (set (start_states c))" by (simp add: inj_on_def f)
    show "?f ` set (start_states c) \<inter> set (pending c) = {}" using new_old by blast
  qed
  moreover have "set ?pend \<inter> set out = {}"
    using di new_old unfolding setp by auto
  ultimately have di': "distinct (?pend @ out)" using di by simp
  have so': "sorted (map combined ?pend)"
    unfolding StatePairLess_less_by using so by (rule sorted_fold_insert)
  have se': "set ?pend \<union> set out = set (start_states c) \<times> set q"
    unfolding setp ap(2) using se by (auto simp: f)
  have b2': "\<forall>x \<in> set q. node x < length q"
    using b2 ap(1) unfolding ap(2) ap(3) by auto
  have d2': "distinct q" using ap(4) fresh d2 by simp
  show ?thesis
    unfolding st using d1 b1 d2' b2' so' se' di' by (simp add: connecting_inv_def)
qed

lemma step_turn_inv:
  fixes c :: "'p::{plus,linorder} ConnectingPrivate"
  assumes inv: "connecting_inv (c, out)"
  shows "connecting_inv (step SchedulerTurn (c, out))"
proof (cases "pending c")
  case Nil
  then show ?thesis using inv by (simp add: canCompute_def ordered_empty_def)
next
  case (Cons best rest)
  then have st: "step SchedulerTurn (c, out) = (c\<lparr>pending := rest\<rparr>, out @ [best])"
    by (simp add: canCompute_def ordered_empty_def compute_def ordered_pop_def)
  show ?thesis
    unfolding st using inv Cons by (auto simp: connecting_inv_def)
qed

lemma step_inv:
  fixes s :: "'p::{plus,linorder} ConnectingPrivate \<times> 'p StatePair list"
  shows "connecting_inv s \<Longrightarrow> connecting_inv (step e s)"
  by (cases s; cases e) (simp_all only: step_start_inv step_end_inv step_turn_inv)

lemma fold_step_inv:
  fixes s :: "'p::{plus,linorder} ConnectingPrivate \<times> 'p StatePair list"
  shows "connecting_inv s \<Longrightarrow> connecting_inv (fold step evs s)"
  by (induction evs arbitrary: s) (simp_all add: step_inv)

lemma run_inv:
  fixes evs :: "'p::{plus,linorder} event list"
  shows "connecting_inv (run evs)"
  unfolding run_def by (rule fold_step_inv) (simp add: connecting_inv_def initial_def)

lemma step_counts:
  "length (start_states (fst (step e s))) = length (start_states (fst s)) + n_starts [e]
 \<and> length (end_states (fst (step e s))) = length (end_states (fst s)) + n_ends [e]"
  by (cases s; cases e)
     (auto simp: Interface_add_def Let_def newState_def length_ordered_insert canCompute_def
        compute_def ordered_pop_def split: list.splits)

lemma n_starts_Cons: "n_starts (e # evs) = n_starts [e] + n_starts evs"
  by (cases e) simp_all

lemma n_ends_Cons: "n_ends (e # evs) = n_ends [e] + n_ends evs"
  by (cases e) simp_all

lemma fold_step_counts:
  "length (start_states (fst (fold step evs s))) = length (start_states (fst s)) + n_starts evs
 \<and> length (end_states (fst (fold step evs s))) = length (end_states (fst s)) + n_ends evs"
proof (induction evs arbitrary: s)
  case Nil
  then show ?case by simp
next
  case (Cons e evs)
  show ?case
    using Cons.IH [of "step e s"] step_counts [of e s]
    by (simp add: n_starts_Cons [of e evs] n_ends_Cons [of e evs])
qed

lemma run_counts:
  "length (start_states (fst (run evs))) = n_starts evs"
  "length (end_states (fst (run evs))) = n_ends evs"
  using fold_step_counts [of evs "(initial, [])"] by (simp_all add: run_def initial_def)

lemma step_out_grows: "\<exists>more. snd (step e s) = snd s @ more"
  by (cases s; cases e) (auto simp: compute_def split: option.splits prod.splits)

lemma fold_step_out_grows: "\<exists>more. snd (fold step evs s) = snd s @ more"
proof (induction evs arbitrary: s)
  case Nil
  then show ?case by simp
next
  case (Cons e evs)
  obtain m1 where m1: "snd (step e s) = snd s @ m1" using step_out_grows by blast
  obtain m2 where "snd (fold step evs (step e s)) = snd (step e s) @ m2"
    using Cons.IH by blast
  with m1 show ?case by simp
qed

lemma compute_Some:
  "compute c = Some (best, c') \<longleftrightarrow> pending c = best # pending c' \<and> c' = c\<lparr>pending := pending c'\<rparr>"
  by (cases "pending c") (auto simp: compute_def ordered_pop_def)

text \<open>
  Claim C1. The pending queue of the Connecting stage is keyed by the sum of the
  priorities of a pair's two states: \<^verbatim>\<open>StatePairLess\<close> compares these sums. After any
  sequence of arrivals and scheduler turns the queue is in ascending order of that sum,
  so the pair that \<^verbatim>\<open>compute\<close> pops has a combined priority that is minimal among
  all pending pairs. The popped pair is no longer pending and was not popped before;
  whatever happens later, no pair is popped twice and no pair popped so far is pending
  again.
\<close>

theorem pending_pop_minimal:
  fixes evs :: "'p::{plus,linorder} event list"
  shows "(\<forall>x y :: 'p StatePair. StatePairLess x y \<longleftrightarrow> combined x < combined y)
    \<and> sorted (map combined (pending (fst (run evs))))
    \<and> (\<forall>best c'. compute (fst (run evs)) = Some (best, c') \<longrightarrow>
          (\<forall>q \<in> set (pending (fst (run evs))). combined best \<le> combined q)
        \<and> best \<notin> set (pending c') \<and> best \<notin> set (snd (run evs)))
    \<and> (\<forall>more. distinct (snd (run (evs @ more)))
          \<and> set (snd (run evs)) \<subseteq> set (snd (run (evs @ more)))
          \<and> set (snd (run evs)) \<inter> set (pending (fst (run (evs @ more)))) = {})"
proof (intro conjI allI impI)
  fix x y :: "'p StatePair"
  show "StatePairLess x y \<longleftrightarrow> combined x < combined y"
    by (simp add: StatePairLess_def combined_def)
next
  obtain c out where r: "run evs = (c, out)" by (cases "run evs")
  have inv: "connecting_inv (c, out)" using run_inv [of evs] by (simp add: r)
  show "sorted (map combined (pending (fst (run evs))))"
    using inv by (simp add: r connecting_inv_def)
  fix best c'
  assume "compute (fst (run evs)) = Some (best, c')"
  then have p: "pending c = best # pending c'" by (simp add: r compute_Some)
  from inv have "sorted (map combined (pending c))" "distinct (pending c @ out)"
    by (simp_all add: connecting_inv_def)
  with p show "\<forall>q \<in> set (pending (fst (run evs))). combined best \<le> combined q"
    "best \<notin> set (pending c')" "best \<notin> set (snd (run evs))"
    by (auto simp: r)
next
  fix more
  obtain c' out' where r': "run (evs @ more) = (c', out')" by (cases "run (evs @ more)")
  have inv: "connecting_inv (c', out')" using run_inv [of "evs @ more"] by (simp add: r')
  obtain later where "snd (fold step more (run evs)) = snd (run evs) @ later"
    using fold_step_out_grows by blast
  then have g: "out' = snd (run evs) @ later" using r' by (simp add: run_def)
  from inv have d: "distinct (pending c' @ out')" by (simp add: connecting_inv_def)
  show "distinct (snd (run (evs @ more)))" using d by (simp add: r')
  show "set (snd (run evs)) \<subseteq> set (snd (run (evs @ more)))" using g by (auto simp: r')
  show "set (snd (run evs)) \<inter> set (pending (fst (run (evs @ more)))) = {}"
    using d g by (auto simp: r')
qed

theorem pending_pop_minimal_witness:
  "compute (fst (run [StartArrives (0::int), EndArrives 0, StartArrives 5, EndArrives 5])) =
     Some ((\<lparr>node = 0, priority = 0\<rparr>, \<lparr>node = 0, priority = 0\<rparr>),
       \<lparr>start_states = [\<lparr>node = 0, priority = 0\<rparr>, \<lparr>node = 1, priority = 5\<rparr>],
        end_states = [\<lparr>node = 0, priority = 0\<rparr>, \<lparr>node = 1, priority = 5\<rparr>],
        pending =
         [(\<lparr>node = 1, priority = 5\<rparr>, \<lparr>node = 0, priority = 0\<rparr>),
          (\<lparr>node = 0, priority = 0\<rparr>, \<lparr>node = 1, priority = 5\<rparr>),
          (\<lparr>node = 1, priority = 5\<rparr>, \<lparr>node = 1, priority = 5\<rparr>)]\<rparr>)
   \<and> list_all (\<lambda>q. combined (\<lparr>node = 0, priority = 0::int\<rparr>, \<lparr>node = 0, priority = 0::int\<rparr>)
                    \<le> combined q)
       (pending (fst (run [StartArrives (0::int), EndArrives 0, StartArrives 5, EndArrives 5])))
   \<and> map combined
       (pending (fst (run [StartArrives (0::int), EndArrives 0, StartArrives 5, EndArrives 5])))
       = [0, 5, 5, 10]
   \<and> map combined
       (snd (run ([StartArrives (0::int), EndArrives 0, StartArrives 5, EndArrives 5]
          @ [SchedulerTurn, SchedulerTurn, SchedulerTurn, SchedulerTurn]))) = [0, 5, 5, 10]
   \<and> distinct
       (snd (run ([StartArrives (0::int), EndArrives 0, StartArrives 5, EndArrives 5]
          @ [SchedulerTurn, SchedulerTurn, SchedulerTurn, SchedulerTurn])))"
proof -
  let ?evs = "[StartArrives (0::int), EndArrives 0, StartArrives 5, EndArrives 5]"
  let ?more = "[SchedulerTurn, SchedulerTurn, SchedulerTurn, SchedulerTurn] :: int event list"
  let ?best = "(\<lparr>node = 0, priority = 0::int\<rparr>, \<lparr>node = 0, priority = 0::int\<rparr>)"
  have c: "compute (fst (run ?evs)) =
     Some (?best,
       \<lparr>start_states = [\<lparr>node = 0, priority = 0\<rparr>, \<lparr>node = 1, priority = 5\<rparr>],
        end_states = [\<lparr>node = 0, priority = 0\<rparr>, \<lparr>node = 1, priority = 5\<rparr>],
        pending =
         [(\<lparr>node = 1, priority = 5\<rparr>, \<lparr>node = 0, priority = 0\<rparr>),
          (\<lparr>node = 0, priority = 0\<rparr>, \<lparr>node = 1, priority = 5\<rparr>),
          (\<lparr>node = 1, priority = 5\<rparr>, \<lparr>node = 1, priority = 5\<rparr>)]\<rparr>)"
    by code_simp
  have "\<forall>q \<in> set (pending (fst (run ?evs))). combined ?best \<le> combined q"
    using pending_pop_minimal [of ?evs] c by blast
  then have l: "list_all (\<lambda>q. combined ?best \<le> combined q) (pending (fst (run ?evs)))"
    by (simp only: list_all_iff)
  have d: "distinct (snd (run (?evs @ ?more)))"
    using pending_pop_minimal [of ?evs] by blast
  have m: "map combined (pending (fst (run ?evs))) = [0, 5, 5, 10]"
    "map combined (snd (run (?evs @ ?more))) = [0, 5, 5, 10]"
    by code_simp+
  show ?thesis using c l d m by blast
qed

text \<open>
  Claim C2. In whatever order \<open>N\<close> states arrive at the start interface and \<open>M\<close>
  states at the end interface, with scheduler turns anywhere in between, the pending
  pairs and the pairs already popped are together exactly the pairs of a start state and
  an end state, each once: the pending queue holds \<open>N * M\<close> pairs less those popped.
  Each arrival adds to the pending queue the pairs of the new state with every state
  then on the other side.
\<close>

theorem pending_holds_all_pairs:
  fixes evs :: "'p::{plus,linorder} event list"
    and c :: "'p ConnectingPrivate"
  shows "length (start_states (fst (run evs))) = n_starts evs
    \<and> length (end_states (fst (run evs))) = n_ends evs
    \<and> set (pending (fst (run evs))) \<union> set (snd (run evs)) =
        set (start_states (fst (run evs))) \<times> set (end_states (fst (run evs)))
    \<and> distinct (pending (fst (run evs)) @ snd (run evs))
    \<and> length (pending (fst (run evs))) + length (snd (run evs)) = n_starts evs * n_ends evs
    \<and> set (pending (fst (step (StartArrives p) (c, out)))) =
        set (pending c) \<union> Pair \<lparr>node = length (start_states c), priority = p\<rparr> ` set (end_states c)
    \<and> set (pending (fst (step (EndArrives p) (c, out)))) =
        set (pending c) \<union> (\<lambda>s. (s, \<lparr>node = length (end_states c), priority = p\<rparr>)) ` set (start_states c)"
proof -
  obtain c0 out0 where r: "run evs = (c0, out0)" by (cases "run evs")
  have inv: "connecting_inv (c0, out0)" using run_inv [of evs] by (simp add: r)
  then have d1: "distinct (start_states c0)" and d2: "distinct (end_states c0)"
    and se: "set (pending c0) \<union> set out0 = set (start_states c0) \<times> set (end_states c0)"
    and di: "distinct (pending c0 @ out0)"
    by (simp_all add: connecting_inv_def)
  have n: "length (start_states c0) = n_starts evs" "length (end_states c0) = n_ends evs"
    using run_counts [of evs] by (simp_all add: r)
  have "length (pending c0 @ out0) = card (set (pending c0 @ out0))"
    using di by (simp only: distinct_card)
  also have "\<dots> = card (set (start_states c0) \<times> set (end_states c0))"
    using se by simp
  also have "\<dots> = length (start_states c0) * length (end_states c0)"
    using d1 d2 by (simp add: card_cartesian_product distinct_card)
  finally have len: "length (pending c0) + length out0 = n_starts evs * n_ends evs"
    by (simp add: n)
  have s1: "set (pending (fst (step (StartArrives p) (c, out)))) =
        set (pending c) \<union> Pair \<lparr>node = length (start_states c), priority = p\<rparr> ` set (end_states c)"
    by (auto simp: Interface_add_def Let_def newState_def pull_states_def set_fold_insert make_pair_def)
  have s2: "set (pending (fst (step (EndArrives p) (c, out)))) =
        set (pending c) \<union> (\<lambda>s. (s, \<lparr>node = length (end_states c), priority = p\<rparr>)) ` set (start_states c)"
    by (auto simp: Interface_add_def Let_def newState_def pull_states_def set_fold_insert make_pair_def)
  show ?thesis
    using n se di len s1 s2 by (simp add: r)
qed

theorem pending_holds_all_pairs_witness:
  "n_starts [StartArrives (0::int), EndArrives 0, StartArrives 5, SchedulerTurn, EndArrives 5] = 2
 \<and> n_ends [StartArrives (0::int), EndArrives 0, StartArrives 5, SchedulerTurn, EndArrives 5] = 2
 \<and> length (snd (run
      [StartArrives (0::int), EndArrives 0, StartArrives 5, SchedulerTurn, EndArrives 5])) = 1
 \<and> length (pending (fst (run
      [StartArrives (0::int), EndArrives 0, StartArrives 5, SchedulerTurn, EndArrives 5]))) = 3"
proof -
  let ?evs = "[StartArrives (0::int), EndArrives 0, StartArrives 5, SchedulerTurn, EndArrives 5]"
  have n: "n_starts ?evs = 2" "n_ends ?evs = 2" by simp_all
  have o: "length (snd (run ?evs)) = 1" by code_simp
  have "length (pending (fst (run ?evs))) + length (snd (run ?evs)) = n_starts ?evs * n_ends ?evs"
    using pending_holds_all_pairs [of ?evs] by blast
  then have "length (pending (fst (run ?evs))) = 3" unfolding n o by simp
  with n o show ?thesis by blast
qed

end
